theory Spec2Isabelle
  imports Main
begin

section \<open>The ticket seller: \<open>sellTickets\<close>\<close>

text \<open>
  \<^verbatim>\<open>
  function sellTickets(queue) {
    let wallet = 0;
    let isCan = true;
    queue.forEach((el, index) => {
      if (index !== 0 && el > wallet) { isCan = false; }
      wallet += el;
    });
    return isCan;
  }
  \<close>
  The \<open>forEach\<close> callback reads and writes the two local variables; the loop is a
  recursion over the queue that threads \<open>index\<close>, \<open>wallet\<close> and \<open>isCan\<close>.
  Bills are integers (25, 50, 100), far below the range where a JavaScript number
  stops being an exact integer, so \<open>int\<close> models them.
\<close>

fun sellTickets_forEach :: "int list \<Rightarrow> nat \<Rightarrow> int \<Rightarrow> bool \<Rightarrow> bool" where
  "sellTickets_forEach [] index wallet isCan = isCan"
| "sellTickets_forEach (el # rest) index wallet isCan =
     sellTickets_forEach rest (index + 1) (wallet + el)
       (if index \<noteq> 0 \<and> el > wallet then False else isCan)"

definition sellTickets :: "int list \<Rightarrow> bool" where
  "sellTickets queue = sellTickets_forEach queue 0 0 True"

text \<open>
  The reference behaviour the function's documentation describes, written from the
  words of the specification: the seller starts with an empty till, each customer
  buys one ticket of price 25 in queue order, and change is given greedily, largest
  bill first, from the bills received so far. The till counts the bills of 25, 50 and
  100.
\<close>

record till =
  bills25 :: nat
  bills50 :: nat
  bills100 :: nat

definition spec_serve :: "int \<Rightarrow> till \<Rightarrow> till option" where
  "spec_serve bill t =
     (if bill = 25 then Some (t\<lparr>bills25 := bills25 t + 1\<rparr>)
      else if bill = 50 then
        (if 1 \<le> bills25 t then Some (t\<lparr>bills25 := bills25 t - 1, bills50 := bills50 t + 1\<rparr>)
         else None)
      else if bill = 100 then
        (if 1 \<le> bills50 t \<and> 1 \<le> bills25 t
         then Some (t\<lparr>bills50 := bills50 t - 1, bills25 := bills25 t - 1,
                      bills100 := bills100 t + 1\<rparr>)
         else if 3 \<le> bills25 t
         then Some (t\<lparr>bills25 := bills25 t - 3, bills100 := bills100 t + 1\<rparr>)
         else None)
      else None)"

fun spec_serve_all :: "int list \<Rightarrow> till \<Rightarrow> bool" where
  "spec_serve_all [] t = True"
| "spec_serve_all (bill # rest) t =
     (case spec_serve bill t of None \<Rightarrow> False | Some t' \<Rightarrow> spec_serve_all rest t')"

definition spec_sellTickets :: "int list \<Rightarrow> bool" where
  "spec_sellTickets queue = spec_serve_all queue \<lparr>bills25 = 0, bills50 = 0, bills100 = 0\<rparr>"

section \<open>The selector builder: class \<open>MySuperBaseElementSelector\<close>\<close>

subsection \<open>Data\<close>

text \<open>
  The six category names the methods use as \<open>tag\<close>, and the table
  \<open>orderTagList\<close> the constructor stores in every instance (it is never written
  afterwards, so it is a function of the tag).
\<close>

datatype tag = Element | Id | Class | Attribute | PseudoClass | PseudoElement

fun orderTagList :: "tag \<Rightarrow> nat" where
  "orderTagList Element = 0"
| "orderTagList Id = 1"
| "orderTagList Class = 2"
| "orderTagList Attribute = 3"
| "orderTagList PseudoClass = 4"
| "orderTagList PseudoElement = 5"

text \<open>Both exceptions are \<open>new Error(message)\<close>; they differ in the message only.\<close>

datatype error = Error string

definition OrderViolation :: error where
  "OrderViolation = Error ''Selector parts should be arranged in the following order: element, id, class, attribute, pseudo-class, pseudo-element''"

definition DuplicateSingleton :: error where
  "DuplicateSingleton = Error ''Element, id and pseudo-element should not occur more then one time inside the selector''"

text \<open>
  The fields the constructor initialises (\<open>output_field\<close> is the field \<open>output\<close>,
  which no method reads or writes). \<open>prevTag\<close> is \<open>false\<close> at first and a tag
  name afterwards: \<open>None\<close> is the \<open>false\<close>, and every tag name is a non-empty string,
  hence truthy.
\<close>

record uniqEl =
  uniq_element :: bool
  uniq_id :: bool
  uniq_pseudoElement :: bool

record selector =
  selectorsArr :: "string list"
  output_field :: string
  uniqElObj :: uniqEl
  prevTag :: "tag option"

definition constructor :: selector where
  "constructor =
     \<lparr>selectorsArr = [], output_field = [],
      uniqElObj = \<lparr>uniq_element = False, uniq_id = False, uniq_pseudoElement = False\<rparr>,
      prevTag = None\<rparr>"

subsection \<open>Methods\<close>

text \<open>
  A method mutates \<open>this\<close> and returns it, or throws. The model returns \<open>Inr\<close> of the
  updated object, or \<open>Inl\<close> of the error together with the object as the throw
  leaves it: \<open>element\<close>, \<open>id\<close> and \<open>pseudoElement\<close> assign \<open>prevTag\<close> before
  their second check.

  Every method starts with the same guard,
  \<^verbatim>\<open>this.prevTag && this.orderTagList[tag] < this.orderTagList[this.prevTag]\<close>.
\<close>

definition order_guard :: "tag \<Rightarrow> selector \<Rightarrow> bool" where
  "order_guard tg this =
     (case prevTag this of None \<Rightarrow> False
      | Some p \<Rightarrow> orderTagList tg < orderTagList p)"

definition element :: "string \<Rightarrow> selector \<Rightarrow> (error \<times> selector) + selector" where
  "element v this =
     (let tg = Element in
      if order_guard tg this then Inl (OrderViolation, this)
      else let this1 = this\<lparr>prevTag := Some tg\<rparr> in
        if uniq_element (uniqElObj this1) then Inl (DuplicateSingleton, this1)
        else Inr (this1\<lparr>uniqElObj := (uniqElObj this1)\<lparr>uniq_element := True\<rparr>,
                        selectorsArr := selectorsArr this1 @ [v]\<rparr>))"

definition id_m :: "string \<Rightarrow> selector \<Rightarrow> (error \<times> selector) + selector" where
  "id_m v this =
     (let tg = Id in
      if order_guard tg this then Inl (OrderViolation, this)
      else let this1 = this\<lparr>prevTag := Some tg\<rparr> in
        if uniq_id (uniqElObj this1) then Inl (DuplicateSingleton, this1)
        else Inr (this1\<lparr>uniqElObj := (uniqElObj this1)\<lparr>uniq_id := True\<rparr>,
                        selectorsArr := selectorsArr this1 @ [''#'' @ v]\<rparr>))"

definition class_m :: "string \<Rightarrow> selector \<Rightarrow> (error \<times> selector) + selector" where
  "class_m v this =
     (let tg = Class in
      if order_guard tg this then Inl (OrderViolation, this)
      else let this1 = this\<lparr>prevTag := Some tg\<rparr> in
        Inr (this1\<lparr>selectorsArr := selectorsArr this1 @ [''.'' @ v]\<rparr>))"

definition attr :: "string \<Rightarrow> selector \<Rightarrow> (error \<times> selector) + selector" where
  "attr v this =
     (let tg = Attribute in
      if order_guard tg this then Inl (OrderViolation, this)
      else let this1 = this\<lparr>prevTag := Some tg\<rparr> in
        Inr (this1\<lparr>selectorsArr := selectorsArr this1 @ [''['' @ v @ '']'']\<rparr>))"

definition pseudoClass :: "string \<Rightarrow> selector \<Rightarrow> (error \<times> selector) + selector" where
  "pseudoClass v this =
     (let tg = PseudoClass in
      if order_guard tg this then Inl (OrderViolation, this)
      else let this1 = this\<lparr>prevTag := Some tg\<rparr> in
        Inr (this1\<lparr>selectorsArr := selectorsArr this1 @ ['':'' @ v]\<rparr>))"

definition pseudoElement :: "string \<Rightarrow> selector \<Rightarrow> (error \<times> selector) + selector" where
  "pseudoElement v this =
     (let tg = PseudoElement in
      if order_guard tg this then Inl (OrderViolation, this)
      else let this1 = this\<lparr>prevTag := Some tg\<rparr> in
        if uniq_pseudoElement (uniqElObj this1) then Inl (DuplicateSingleton, this1)
        else Inr (this1\<lparr>uniqElObj := (uniqElObj this1)\<lparr>uniq_pseudoElement := True\<rparr>,
                        selectorsArr := selectorsArr this1 @ [''::'' @ v]\<rparr>))"

text \<open>\<open>stringify\<close> is \<open>this.selectorsArr.join('')\<close>: it reads the array and builds a new string.\<close>

definition stringify :: "selector \<Rightarrow> string" where
  "stringify this = concat (selectorsArr this)"

text \<open>
  \<open>combine\<close> evaluates the template string, which renders both operands, and then
  pushes it onto the receiver's array. The operands are passed as the objects the
  two references denote when the call is made.
\<close>

definition combine :: "selector \<Rightarrow> string \<Rightarrow> selector \<Rightarrow> selector \<Rightarrow> selector" where
  "combine selector1 combinator selector2 this =
     this\<lparr>selectorsArr := selectorsArr this
            @ [stringify selector1 @ '' '' @ combinator @ '' '' @ stringify selector2]\<rparr>"

subsection \<open>Calls on one builder\<close>

text \<open>
  An append call is a call of one of the six category methods; \<open>append_call\<close>
  selects the method by its category.
\<close>

fun append_call :: "tag \<Rightarrow> string \<Rightarrow> selector \<Rightarrow> (error \<times> selector) + selector" where
  "append_call Element v = element v"
| "append_call Id v = id_m v"
| "append_call Class v = class_m v"
| "append_call Attribute v = attr v"
| "append_call PseudoClass v = pseudoClass v"
| "append_call PseudoElement v = pseudoElement v"

text \<open>
  A fluent chain \<open>b.m1(v1).m2(v2)...\<close>: each method is called on the object the
  previous one returned, and the first throw ends the chain.
\<close>

fun chain :: "(tag \<times> string) list \<Rightarrow> selector \<Rightarrow> (error \<times> selector) + selector" where
  "chain [] this = Inr this"
| "chain ((tg, v) # rest) this =
     (case append_call tg v this of Inl e \<Rightarrow> Inl e | Inr this' \<Rightarrow> chain rest this')"

text \<open>
  A caller may also catch a throw and go on using the builder, and may call the
  method \<open>combine\<close> on it. \<open>after_call\<close> is the receiver after one call, whether the
  call returned or threw; \<open>run\<close> is the receiver after a sequence of calls;
  \<open>history\<close> lists, in call order, the categories of the append calls of that
  sequence that returned normally, that is, of the fragments appended.
\<close>

datatype call = Append tag string | Combine selector string selector

fun after_call :: "call \<Rightarrow> selector \<Rightarrow> selector" where
  "after_call (Append tg v) this =
     (case append_call tg v this of Inl (e, this') \<Rightarrow> this' | Inr this' \<Rightarrow> this')"
| "after_call (Combine selector1 combinator selector2) this =
     combine selector1 combinator selector2 this"

fun appended :: "call \<Rightarrow> selector \<Rightarrow> tag list" where
  "appended (Append tg v) this =
     (case append_call tg v this of Inl e \<Rightarrow> [] | Inr this' \<Rightarrow> [tg])"
| "appended (Combine selector1 combinator selector2) this = []"

fun run :: "call list \<Rightarrow> selector \<Rightarrow> selector" where
  "run [] this = this"
| "run (c # cs) this = run cs (after_call c this)"

fun history :: "call list \<Rightarrow> selector \<Rightarrow> tag list" where
  "history [] this = []"
| "history (c # cs) this = appended c this @ history cs (after_call c this)"

text \<open>
  The words of the specification: the fragment of a category and a value, and the
  sequences of categories that respect the ascending order and the singleton limits.
\<close>

fun spec_fragment :: "tag \<Rightarrow> string \<Rightarrow> string" where
  "spec_fragment Element v = v"
| "spec_fragment Id v = ''#'' @ v"
| "spec_fragment Class v = ''.'' @ v"
| "spec_fragment Attribute v = ''['' @ v @ '']''"
| "spec_fragment PseudoClass v = '':'' @ v"
| "spec_fragment PseudoElement v = ''::'' @ v"

definition spec_valid_sequence :: "tag list \<Rightarrow> bool" where
  "spec_valid_sequence tags =
     (sorted (map orderTagList tags)
      \<and> count_list tags Element \<le> 1
      \<and> count_list tags Id \<le> 1
      \<and> count_list tags PseudoElement \<le> 1)"

fun singleton_tag :: "tag \<Rightarrow> bool" where
  "singleton_tag Element = True"
| "singleton_tag Id = True"
| "singleton_tag PseudoElement = True"
| "singleton_tag tg = False"

subsection \<open>Objects and references\<close>

text \<open>
  Builders are objects, and \<open>combine\<close> receives references to two of them. The
  heap is the list of the objects allocated so far; a reference is an index into it,
  and \<open>new MySuperBaseElementSelector()\<close> allocates at the end. \<open>invoke\<close> calls a
  method on the object a reference denotes and writes the receiver back, also when
  the method throws; a method that returns \<open>this\<close> returns the reference.
  A JavaScript reference always denotes an allocated object, so the properties of
  operands below are stated for references less than the length of the heap.
\<close>

type_synonym ref = nat
type_synonym heap = "selector list"

definition new_MySuperBaseElementSelector :: "heap \<Rightarrow> ref \<times> heap" where
  "new_MySuperBaseElementSelector h = (length h, h @ [constructor])"

definition invoke ::
  "(selector \<Rightarrow> (error \<times> selector) + selector) \<Rightarrow> ref \<Rightarrow> heap \<Rightarrow> (error + ref) \<times> heap" where
  "invoke m r h =
     (case m (h ! r) of
        Inl (e, this') \<Rightarrow> (Inl e, h[r := this'])
      | Inr this' \<Rightarrow> (Inr r, h[r := this']))"

definition invoke_stringify :: "ref \<Rightarrow> heap \<Rightarrow> (error + string) \<times> heap" where
  "invoke_stringify r h = (Inr (stringify (h ! r)), h)"

definition invoke_combine ::
  "ref \<Rightarrow> ref \<Rightarrow> string \<Rightarrow> ref \<Rightarrow> heap \<Rightarrow> (error + ref) \<times> heap" where
  "invoke_combine r selector1 combinator selector2 h =
     (Inr r, h[r := combine (h ! selector1) combinator (h ! selector2) (h ! r)])"

subsection \<open>The object \<open>cssSelectorBuilder\<close>\<close>

definition cssSelectorBuilder_element :: "string \<Rightarrow> heap \<Rightarrow> (error + ref) \<times> heap" where
  "cssSelectorBuilder_element v h =
     (let (r, h1) = new_MySuperBaseElementSelector h in invoke (element v) r h1)"

definition cssSelectorBuilder_id :: "string \<Rightarrow> heap \<Rightarrow> (error + ref) \<times> heap" where
  "cssSelectorBuilder_id v h =
     (let (r, h1) = new_MySuperBaseElementSelector h in invoke (id_m v) r h1)"

definition cssSelectorBuilder_class :: "string \<Rightarrow> heap \<Rightarrow> (error + ref) \<times> heap" where
  "cssSelectorBuilder_class v h =
     (let (r, h1) = new_MySuperBaseElementSelector h in invoke (class_m v) r h1)"

definition cssSelectorBuilder_attr :: "string \<Rightarrow> heap \<Rightarrow> (error + ref) \<times> heap" where
  "cssSelectorBuilder_attr v h =
     (let (r, h1) = new_MySuperBaseElementSelector h in invoke (attr v) r h1)"

definition cssSelectorBuilder_pseudoClass :: "string \<Rightarrow> heap \<Rightarrow> (error + ref) \<times> heap" where
  "cssSelectorBuilder_pseudoClass v h =
     (let (r, h1) = new_MySuperBaseElementSelector h in invoke (pseudoClass v) r h1)"

definition cssSelectorBuilder_pseudoElement :: "string \<Rightarrow> heap \<Rightarrow> (error + ref) \<times> heap" where
  "cssSelectorBuilder_pseudoElement v h =
     (let (r, h1) = new_MySuperBaseElementSelector h in invoke (pseudoElement v) r h1)"

definition cssSelectorBuilder_combine ::
  "ref \<Rightarrow> string \<Rightarrow> ref \<Rightarrow> heap \<Rightarrow> (error + ref) \<times> heap" where
  "cssSelectorBuilder_combine selector1 combinator selector2 h =
     (let (r, h1) = new_MySuperBaseElementSelector h
      in invoke_combine r selector1 combinator selector2 h1)"

text \<open>A top-level factory call, selected by its category.\<close>

fun factory_call :: "tag \<Rightarrow> string \<Rightarrow> heap \<Rightarrow> (error + ref) \<times> heap" where
  "factory_call Element v = cssSelectorBuilder_element v"
| "factory_call Id v = cssSelectorBuilder_id v"
| "factory_call Class v = cssSelectorBuilder_class v"
| "factory_call Attribute v = cssSelectorBuilder_attr v"
| "factory_call PseudoClass v = cssSelectorBuilder_pseudoClass v"
| "factory_call PseudoElement v = cssSelectorBuilder_pseudoElement v"

text \<open>
  Sequencing of calls in an expression: the next call runs on the heap the previous
  one left, and a throw ends the evaluation.
\<close>

definition and_then ::
  "(error + 'a) \<times> heap \<Rightarrow> ('a \<Rightarrow> heap \<Rightarrow> (error + 'b) \<times> heap) \<Rightarrow> (error + 'b) \<times> heap" where
  "and_then x f = (case x of (Inl e, h) \<Rightarrow> (Inl e, h) | (Inr a, h) \<Rightarrow> f a h)"

text \<open>
  The nested example of the documentation comment above the class:
  \<^verbatim>\<open>
  builder.combine(
      builder.element('div').id('main').class('container').class('draggable'),
      '+',
      builder.combine(
          builder.element('table').id('data'),
          '~',
          builder.combine(
              builder.element('tr').pseudoClass('nth-of-type(even)'),
              ' ',
              builder.element('td').pseudoClass('nth-of-type(even)')))).stringify()
  \<close>
  JavaScript evaluates arguments left to right, so the four chains are built first,
  in the order they are written, and the three \<open>combine\<close> calls run innermost first.
\<close>

definition doc_example :: "heap \<Rightarrow> (error + string) \<times> heap" where
  "doc_example h0 =
     and_then (and_then (and_then (and_then (cssSelectorBuilder_element ''div'' h0)
        (invoke (id_m ''main''))) (invoke (class_m ''container'')))
        (invoke (class_m ''draggable''))) (\<lambda>a h1.
     and_then (and_then (cssSelectorBuilder_element ''table'' h1)
        (invoke (id_m ''data''))) (\<lambda>b h2.
     and_then (and_then (cssSelectorBuilder_element ''tr'' h2)
        (invoke (pseudoClass ''nth-of-type(even)''))) (\<lambda>c h3.
     and_then (and_then (cssSelectorBuilder_element ''td'' h3)
        (invoke (pseudoClass ''nth-of-type(even)''))) (\<lambda>d h4.
     and_then (cssSelectorBuilder_combine c '' '' d h4) (\<lambda>cd h5.
     and_then (cssSelectorBuilder_combine b ''~'' cd h5) (\<lambda>bcd h6.
     and_then (cssSelectorBuilder_combine a ''+'' bcd h6) invoke_stringify))))))"

subsection \<open>Predicates of the proofs\<close>

text \<open>
  \<open>seen\<close> reads the flag of a singleton category. \<open>consistent\<close> relates a builder
  to the list of the categories appended to it: \<open>prevTag\<close> is the last of them, each
  flag says whether its category occurs, and the list respects the order and the
  singleton limits.
\<close>

fun seen :: "tag \<Rightarrow> selector \<Rightarrow> bool" where
  "seen Element this = uniq_element (uniqElObj this)"
| "seen Id this = uniq_id (uniqElObj this)"
| "seen PseudoElement this = uniq_pseudoElement (uniqElObj this)"
| "seen tg this = False"

definition consistent :: "selector \<Rightarrow> tag list \<Rightarrow> bool" where
  "consistent this hist =
     (prevTag this = (if hist = [] then None else Some (last hist))
      \<and> uniq_element (uniqElObj this) = (Element \<in> set hist)
      \<and> uniq_id (uniqElObj this) = (Id \<in> set hist)
      \<and> uniq_pseudoElement (uniqElObj this) = (PseudoElement \<in> set hist)
      \<and> spec_valid_sequence hist)"

section \<open>Properties\<close>

subsection \<open>The methods, case by case\<close>

lemmas method_defs = element_def id_m_def class_m_def attr_def pseudoClass_def pseudoElement_def

lemma errors_differ: "OrderViolation \<noteq> DuplicateSingleton"
  by (simp add: OrderViolation_def DuplicateSingleton_def)

lemma orderTagList_inj: "orderTagList a = orderTagList b \<Longrightarrow> a = b"
  by (cases a; cases b) simp_all

lemma orderTagList_highest: "orderTagList tg \<le> orderTagList PseudoElement"
  by (cases tg) simp_all

lemma append_call_order:
  "order_guard tg this \<Longrightarrow> append_call tg v this = Inl (OrderViolation, this)"
  by (cases tg) (simp_all add: method_defs)

lemma append_call_duplicate:
  "\<not> order_guard tg this \<Longrightarrow> seen tg this \<Longrightarrow>
     append_call tg v this = Inl (DuplicateSingleton, this\<lparr>prevTag := Some tg\<rparr>)"
  by (cases tg) (simp_all add: method_defs)

lemma append_call_returns:
  assumes "\<not> order_guard tg this" and "\<not> seen tg this"
  shows "\<exists>this'. append_call tg v this = Inr this'
           \<and> prevTag this' = Some tg
           \<and> selectorsArr this' = selectorsArr this @ [spec_fragment tg v]
           \<and> uniq_element (uniqElObj this') = (uniq_element (uniqElObj this) \<or> tg = Element)
           \<and> uniq_id (uniqElObj this') = (uniq_id (uniqElObj this) \<or> tg = Id)
           \<and> uniq_pseudoElement (uniqElObj this')
               = (uniq_pseudoElement (uniqElObj this) \<or> tg = PseudoElement)"
  using assms by (cases tg) (simp_all add: method_defs)

lemma sorted_le_last:
  "sorted (map f xs) \<Longrightarrow> x \<in> set xs \<Longrightarrow> f x \<le> f (last xs)"
  by (induction xs) (auto)

lemma seen_consistent:
  "consistent this hist \<Longrightarrow> seen tg this = (singleton_tag tg \<and> tg \<in> set hist)"
  by (cases tg) (simp_all add: consistent_def)

lemma guard_consistent:
  "consistent this hist \<Longrightarrow>
     order_guard tg this = (hist \<noteq> [] \<and> orderTagList tg < orderTagList (last hist))"
  by (simp add: consistent_def order_guard_def)

lemma duplicate_keeps_prevTag:
  assumes c: "consistent this hist" and g: "\<not> order_guard tg this" and s: "seen tg this"
  shows "this\<lparr>prevTag := Some tg\<rparr> = this"
proof -
  from c s have mem: "tg \<in> set hist" by (simp add: seen_consistent)
  then have ne: "hist \<noteq> []" by auto
  from c have "sorted (map orderTagList hist)"
    by (simp add: consistent_def spec_valid_sequence_def)
  from this mem have "orderTagList tg \<le> orderTagList (last hist)" by (rule sorted_le_last)
  moreover from c g ne have "\<not> orderTagList tg < orderTagList (last hist)"
    by (simp add: guard_consistent)
  ultimately have "tg = last hist" by (intro orderTagList_inj) simp
  with c ne have "prevTag this = Some tg" by (simp add: consistent_def)
  then show ?thesis by simp
qed

lemma failed_append_unchanged:
  assumes c: "consistent this hist" and f: "append_call tg v this = Inl (e, this')"
  shows "this' = this \<and> (e = OrderViolation \<or> e = DuplicateSingleton)"
proof (cases "order_guard tg this")
  case True
  with f show ?thesis by (simp add: append_call_order)
next
  case False
  show ?thesis
  proof (cases "seen tg this")
    case True
    with False f c show ?thesis
      by (simp add: append_call_duplicate duplicate_keeps_prevTag)
  next
    case no: False
    from append_call_returns [OF False no, of v] f show ?thesis by auto
  qed
qed

lemma valid_snoc:
  assumes v: "spec_valid_sequence hist"
    and o: "hist \<noteq> [] \<longrightarrow> orderTagList (last hist) \<le> orderTagList tg"
    and u: "singleton_tag tg \<longrightarrow> tg \<notin> set hist"
  shows "spec_valid_sequence (hist @ [tg])"
proof -
  have "\<forall>x\<in>set hist. orderTagList x \<le> orderTagList tg"
  proof
    fix x assume x: "x \<in> set hist"
    with v have "orderTagList x \<le> orderTagList (last hist)"
      by (simp add: spec_valid_sequence_def sorted_le_last)
    with o x show "orderTagList x \<le> orderTagList tg" by auto
  qed
  with v have "sorted (map orderTagList (hist @ [tg]))"
    by (simp add: spec_valid_sequence_def sorted_append)
  moreover from v u have "count_list (hist @ [tg]) Element \<le> 1
      \<and> count_list (hist @ [tg]) Id \<le> 1 \<and> count_list (hist @ [tg]) PseudoElement \<le> 1"
    by (cases tg) (auto simp: spec_valid_sequence_def count_list_0_iff)
  ultimately show ?thesis by (simp add: spec_valid_sequence_def)
qed

lemma valid_snocD:
  assumes v: "spec_valid_sequence (hist @ [tg])"
  shows "spec_valid_sequence hist
     \<and> (hist \<noteq> [] \<longrightarrow> orderTagList (last hist) \<le> orderTagList tg)
     \<and> (singleton_tag tg \<longrightarrow> tg \<notin> set hist)"
proof -
  from v have s: "sorted (map orderTagList hist)"
    and le: "\<forall>x\<in>set hist. orderTagList x \<le> orderTagList tg"
    by (auto simp: spec_valid_sequence_def sorted_append)
  from v have "spec_valid_sequence hist"
    by (auto simp: spec_valid_sequence_def sorted_append split: if_splits)
  moreover from le have "hist \<noteq> [] \<longrightarrow> orderTagList (last hist) \<le> orderTagList tg"
    by auto
  moreover have "singleton_tag tg \<longrightarrow> tg \<notin> set hist"
  proof (intro impI notI)
    assume "singleton_tag tg" and "tg \<in> set hist"
    then have "0 < count_list hist tg" using count_list_0_iff [of hist tg] by arith
    with v \<open>singleton_tag tg\<close> show False
      by (cases tg) (auto simp: spec_valid_sequence_def)
  qed
  ultimately show ?thesis by blast
qed

lemma consistent_after_call:
  assumes c: "consistent this hist"
  shows "consistent (after_call cl this) (hist @ appended cl this)"
proof (cases cl)
  case (Combine a k b)
  with c show ?thesis by (simp add: consistent_def combine_def)
next
  case (Append tg v)
  show ?thesis
  proof (cases "order_guard tg this \<or> seen tg this")
    case True
    then obtain e this' where f: "append_call tg v this = Inl (e, this')"
      using append_call_order [of tg this v] append_call_duplicate [of tg this v] by blast
    with c have "this' = this" by (simp add: failed_append_unchanged)
    with f c Append show ?thesis by simp
  next
    case False
    then have g: "\<not> order_guard tg this" and s: "\<not> seen tg this" by simp_all
    from append_call_returns [OF g s, of v] obtain this' where
      r: "append_call tg v this = Inr this'" and p: "prevTag this' = Some tg"
      and e: "uniq_element (uniqElObj this') = (uniq_element (uniqElObj this) \<or> tg = Element)"
      and i: "uniq_id (uniqElObj this') = (uniq_id (uniqElObj this) \<or> tg = Id)"
      and q: "uniq_pseudoElement (uniqElObj this')
               = (uniq_pseudoElement (uniqElObj this) \<or> tg = PseudoElement)"
      by blast
    from g have o: "hist \<noteq> [] \<longrightarrow> orderTagList (last hist) \<le> orderTagList tg"
      unfolding guard_consistent [OF c] by auto
    from c s have u: "singleton_tag tg \<longrightarrow> tg \<notin> set hist"
      by (simp add: seen_consistent)
    from c have "spec_valid_sequence hist" by (simp add: consistent_def)
    then have "spec_valid_sequence (hist @ [tg])" using o u by (rule valid_snoc)
    with c p e i q have "consistent this' (hist @ [tg])"
      by (auto simp: consistent_def)
    with r Append show ?thesis by simp
  qed
qed

lemma consistent_run:
  "consistent this hist \<Longrightarrow> consistent (run cs this) (hist @ history cs this)"
proof (induction cs arbitrary: this hist)
  case Nil
  then show ?case by simp
next
  case (Cons c cs)
  from Cons.prems have "consistent (after_call c this) (hist @ appended c this)"
    by (rule consistent_after_call)
  from Cons.IH [OF this] show ?case by simp
qed

lemma consistent_constructor: "consistent constructor []"
  by (simp add: consistent_def constructor_def spec_valid_sequence_def)

lemma consistent_reachable: "consistent (run cs constructor) (history cs constructor)"
  using consistent_run [OF consistent_constructor, of cs] by simp

lemmas eval_defs = method_defs order_guard_def constructor_def stringify_def combine_def
  spec_valid_sequence_def

lemma valid_prefix: "spec_valid_sequence (xs @ ys) \<Longrightarrow> spec_valid_sequence xs"
  by (auto simp: spec_valid_sequence_def sorted_append)

lemma chain_valid:
  assumes "consistent this hist" and "spec_valid_sequence (hist @ map fst ops)"
  shows "\<exists>this'. chain ops this = Inr this'
           \<and> selectorsArr this' = selectorsArr this @ map (\<lambda>(tg, v). spec_fragment tg v) ops
           \<and> consistent this' (hist @ map fst ops)"
  using assms
proof (induction ops arbitrary: this hist)
  case Nil
  then show ?case by simp
next
  case (Cons op ops)
  obtain tg v where op: "op = (tg, v)" by (cases op)
  from Cons.prems(2) op have all: "spec_valid_sequence ((hist @ [tg]) @ map fst ops)" by simp
  then have "spec_valid_sequence (hist @ [tg])" by (rule valid_prefix)
  then have o: "hist \<noteq> [] \<longrightarrow> orderTagList (last hist) \<le> orderTagList tg"
    and u: "singleton_tag tg \<longrightarrow> tg \<notin> set hist"
    by (simp_all add: valid_snocD)
  from o have g: "\<not> order_guard tg this"
    unfolding guard_consistent [OF Cons.prems(1)] by auto
  from u have s: "\<not> seen tg this"
    unfolding seen_consistent [OF Cons.prems(1)] by auto
  from append_call_returns [OF g s, of v] obtain this1 where
    r: "append_call tg v this = Inr this1"
    and a: "selectorsArr this1 = selectorsArr this @ [spec_fragment tg v]"
    by blast
  from consistent_after_call [OF Cons.prems(1), of "Append tg v"] r
  have "consistent this1 (hist @ [tg])" by simp
  from Cons.IH [OF this all] obtain this' where
    "chain ops this1 = Inr this'"
    "selectorsArr this' = selectorsArr this1 @ map (\<lambda>(tg, v). spec_fragment tg v) ops"
    "consistent this' ((hist @ [tg]) @ map fst ops)"
    by blast
  with r a op show ?case by simp
qed

lemma chain_repeat:
  assumes "\<not> singleton_tag tg" and "\<not> order_guard tg this"
  shows "\<exists>this'. chain (map (Pair tg) vs) this = Inr this'"
  using assms(2)
proof (induction vs arbitrary: this)
  case Nil
  then show ?case by simp
next
  case (Cons v vs)
  from assms(1) have "\<not> seen tg this" by (cases tg) simp_all
  from append_call_returns [OF Cons.prems this, of v] obtain this1 where
    r: "append_call tg v this = Inr this1" and p: "prevTag this1 = Some tg"
    by blast
  from p have "\<not> order_guard tg this1" by (simp add: order_guard_def)
  from Cons.IH [OF this] r show ?case by simp
qed

lemmas factory_defs = cssSelectorBuilder_element_def cssSelectorBuilder_id_def
  cssSelectorBuilder_class_def cssSelectorBuilder_attr_def cssSelectorBuilder_pseudoClass_def
  cssSelectorBuilder_pseudoElement_def

lemma append_call_constructor:
  "append_call tg v constructor =
     Inr (constructor\<lparr>prevTag := Some tg,
            uniqElObj := \<lparr>uniq_element = (tg = Element), uniq_id = (tg = Id),
                          uniq_pseudoElement = (tg = PseudoElement)\<rparr>,
            selectorsArr := [spec_fragment tg v]\<rparr>)"
  by (cases tg) (simp_all add: method_defs order_guard_def constructor_def)

lemma factory_call_eq:
  "factory_call tg v h = invoke (append_call tg v) (length h) (h @ [constructor])"
  by (cases tg) (simp_all add: factory_defs new_MySuperBaseElementSelector_def)

lemma combine_factory_eq:
  "cssSelectorBuilder_combine selector1 combinator selector2 h =
     (Inr (length h),
      h @ [combine ((h @ [constructor]) ! selector1) combinator
             ((h @ [constructor]) ! selector2) constructor])"
  by (simp add: cssSelectorBuilder_combine_def new_MySuperBaseElementSelector_def
      invoke_combine_def)

lemma combine_factory_operands:
  assumes "selector1 < length h" and "selector2 < length h"
  shows "cssSelectorBuilder_combine selector1 combinator selector2 h =
     (Inr (length h), h @ [combine (h ! selector1) combinator (h ! selector2) constructor])"
  using assms by (simp add: combine_factory_eq nth_append)

lemma combined_fresh:
  "prevTag (combine a k b constructor) = None
   \<and> uniqElObj (combine a k b constructor)
       = \<lparr>uniq_element = False, uniq_id = False, uniq_pseudoElement = False\<rparr>
   \<and> stringify (combine a k b constructor) = stringify a @ '' '' @ k @ '' '' @ stringify b"
  by (simp add: combine_def constructor_def stringify_def)

lemma combined_consistent: "consistent (combine a k b constructor) []"
  by (simp add: consistent_def combined_fresh spec_valid_sequence_def)

subsection \<open>The claims\<close>

text \<open>
  Claim C1. A fluent chain of append calls on a new builder whose categories respect
  the ascending order and the singleton limits returns normally, and \<open>stringify\<close>
  of the result is the concatenation, without separator and in append order, of the
  fragments the specification prescribes: the element value as it is, \<open>#value\<close>,
  \<open>.value\<close>, \<open>[value]\<close>, \<open>:value\<close> and \<open>::value\<close>.
\<close>

theorem chain_renders_fragments:
  assumes "spec_valid_sequence (map fst ops)"
  shows "\<exists>this'. chain ops constructor = Inr this'
           \<and> stringify this' = concat (map (\<lambda>(tg, v). spec_fragment tg v) ops)"
proof -
  from assms have "spec_valid_sequence ([] @ map fst ops)" by simp
  from chain_valid [OF consistent_constructor this] obtain this' where
    "chain ops constructor = Inr this'"
    "selectorsArr this' = selectorsArr constructor @ map (\<lambda>(tg, v). spec_fragment tg v) ops"
    by blast
  then show ?thesis by (simp add: stringify_def constructor_def)
qed

theorem chain_renders_fragments_witness:
  "spec_valid_sequence (map fst [(Id, ''main''), (Class, ''container''), (Class, ''editable'')])
   \<and> (\<exists>this'. chain [(Id, ''main''), (Class, ''container''), (Class, ''editable'')] constructor
                 = Inr this'
         \<and> stringify this' = ''#main.container.editable'')"
proof -
  have h: "spec_valid_sequence
             (map fst [(Id, ''main''), (Class, ''container''), (Class, ''editable'')])"
    by (simp add: spec_valid_sequence_def)
  show ?thesis using h chain_renders_fragments [OF h] by simp
qed

text \<open>
  Claim C2. On a builder that some sequence of calls has brought to a state with at
  least one fragment appended, an append call raises the order error exactly when
  the order index of its category is strictly less than the order index of the
  category appended last. Hence \<open>class\<close>, \<open>attr\<close> and \<open>pseudoClass\<close> can be
  repeated any number of times at their own level: the whole chain returns normally.
\<close>

theorem order_violation_iff:
  assumes "history cs constructor \<noteq> []"
  shows "((\<exists>this'. append_call tg v (run cs constructor) = Inl (OrderViolation, this'))
            \<longleftrightarrow> orderTagList tg < orderTagList (last (history cs constructor)))
       \<and> (tg \<in> {Class, Attribute, PseudoClass}
            \<and> orderTagList (last (history cs constructor)) \<le> orderTagList tg
          \<longrightarrow> (\<exists>this'. chain (map (Pair tg) vs) (run cs constructor) = Inr this'))"
proof -
  let ?b = "run cs constructor" and ?hs = "history cs constructor"
  have c: "consistent ?b ?hs" by (rule consistent_reachable)
  with assms have g: "order_guard tg ?b = (orderTagList tg < orderTagList (last ?hs))"
    by (simp add: guard_consistent)
  have "(\<exists>this'. append_call tg v ?b = Inl (OrderViolation, this')) = order_guard tg ?b"
  proof (cases "order_guard tg ?b")
    case True
    then show ?thesis by (simp add: append_call_order)
  next
    case False
    show ?thesis
    proof (cases "seen tg ?b")
      case True
      with False show ?thesis by (simp add: append_call_duplicate errors_differ [symmetric])
    next
      case no: False
      from append_call_returns [OF False no, of v] False show ?thesis by auto
    qed
  qed
  moreover have "\<exists>this'. chain (map (Pair tg) vs) ?b = Inr this'"
    if "tg \<in> {Class, Attribute, PseudoClass}"
      and "orderTagList (last ?hs) \<le> orderTagList tg"
  proof -
    from that(1) have "\<not> singleton_tag tg" by auto
    moreover from that(2) g have "\<not> order_guard tg ?b" by simp
    ultimately show ?thesis by (rule chain_repeat)
  qed
  ultimately show ?thesis using g by blast
qed

theorem order_violation_iff_witness:
  "history [Append Class ''a''] constructor \<noteq> []
   \<and> (\<exists>this'. append_call Id ''x'' (run [Append Class ''a''] constructor)
                 = Inl (OrderViolation, this'))
   \<and> (\<exists>this'. chain (map (Pair Class) [''b'', ''c'']) (run [Append Class ''a''] constructor)
                 = Inr this')"
proof -
  have h: "history [Append Class ''a''] constructor \<noteq> []"
    by (simp add: eval_defs)
  have l: "last (history [Append Class ''a''] constructor) = Class"
    by (simp add: eval_defs)
  show ?thesis
    using h order_violation_iff [OF h, of Id "''x''"] order_violation_iff [OF h, of Class _ "[''b'', ''c'']"]
    unfolding l by simp
qed

text \<open>
  Claim C3 says that a second call of \<open>element\<close>, \<open>id\<close> or \<open>pseudoElement\<close>
  raises the duplicate error whatever was appended in between. Every method checks
  the order first: after \<open>element('div').id('main')\<close> a second \<open>element\<close> raises the
  order error, and the two errors differ.
\<close>

theorem repeated_singleton_raises_counterexample:
  "history [Append Element ''div'', Append Id ''main''] constructor = [Element, Id]
   \<and> append_call Element ''span'' (run [Append Element ''div'', Append Id ''main''] constructor)
       = Inl (OrderViolation, run [Append Element ''div'', Append Id ''main''] constructor)
   \<and> append_call Element ''span'' (run [Append Element ''div'', Append Id ''main''] constructor)
       \<noteq> Inl (DuplicateSingleton, run [Append Element ''div'', Append Id ''main''] constructor)"
  by (simp add: eval_defs errors_differ)

text \<open>
  Claim C3, amended. On a builder on which \<open>element\<close> (respectively \<open>id\<close>,
  \<open>pseudoElement\<close>) has been appended, every later call of the same category raises
  and leaves the builder as it was, whatever was called in between: the order error
  when a fragment of a strictly higher category has been appended last, the
  duplicate error otherwise; for \<open>pseudoElement\<close>, which has the highest order
  index, always the duplicate error.
\<close>

theorem repeated_singleton_raises:
  assumes "singleton_tag tg" and "tg \<in> set (history cs constructor)"
  shows "append_call tg v (run cs constructor) =
           Inl (if orderTagList tg < orderTagList (last (history cs constructor))
                then OrderViolation else DuplicateSingleton,
                run cs constructor)
       \<and> (tg = PseudoElement \<longrightarrow>
            append_call tg v (run cs constructor) = Inl (DuplicateSingleton, run cs constructor))"
proof -
  let ?b = "run cs constructor" and ?hs = "history cs constructor"
  have c: "consistent ?b ?hs" by (rule consistent_reachable)
  from assms(2) have ne: "?hs \<noteq> []" by auto
  from c assms have s: "seen tg ?b" by (simp add: seen_consistent)
  have raises: "append_call tg v ?b =
           Inl (if orderTagList tg < orderTagList (last ?hs)
                then OrderViolation else DuplicateSingleton, ?b)"
  proof (cases "order_guard tg ?b")
    case True
    with c ne show ?thesis by (simp add: append_call_order guard_consistent)
  next
    case False
    with c ne s show ?thesis
      by (simp add: append_call_duplicate duplicate_keeps_prevTag guard_consistent)
  qed
  have highest: "\<not> orderTagList tg < orderTagList (last ?hs)" if "tg = PseudoElement"
    using that orderTagList_highest [of "last ?hs"] by simp
  show ?thesis
  proof (intro conjI impI)
    assume "tg = PseudoElement"
    then have "\<not> orderTagList tg < orderTagList (last ?hs)" by (rule highest)
    with raises show "append_call tg v ?b = Inl (DuplicateSingleton, ?b)"
      by (simp only: if_False)
  qed (rule raises)
qed

theorem repeated_singleton_raises_witness:
  "singleton_tag Id \<and> Id \<in> set (history [Append Id ''a'', Append Class ''b''] constructor)
   \<and> append_call Id ''c'' (run [Append Id ''a'', Append Class ''b''] constructor)
       = Inl (OrderViolation, run [Append Id ''a'', Append Class ''b''] constructor)
   \<and> append_call Id ''c'' (run [Append Id ''a''] constructor)
       = Inl (DuplicateSingleton, run [Append Id ''a''] constructor)"
proof -
  have h1: "singleton_tag Id" by simp
  have h2: "Id \<in> set (history [Append Id ''a'', Append Class ''b''] constructor)"
    by (simp add: eval_defs)
  have h3: "Id \<in> set (history [Append Id ''a''] constructor)"
    by (simp add: eval_defs)
  have l2: "last (history [Append Id ''a'', Append Class ''b''] constructor) = Class"
    by (simp add: eval_defs)
  have l3: "last (history [Append Id ''a''] constructor) = Id"
    by (simp add: eval_defs)
  show ?thesis
    using h1 h2 repeated_singleton_raises [OF h1 h2, of "''c''", THEN conjunct1]
      repeated_singleton_raises [OF h1 h3, of "''c''", THEN conjunct1]
    unfolding l2 l3 by (simp add: errors_differ)
qed

text \<open>
  Claim C4. \<open>cssSelectorBuilder.combine(selector1, token, selector2)\<close> returns a
  new builder, usable as an operand of a further \<open>combine\<close>, whose \<open>stringify\<close> is
  the rendering of the first operand, a space, the token as it is, a space, and the
  rendering of the second operand, for every token. The nested example of the
  documentation, with the tokens \<open>+\<close>, \<open>~\<close> and a space, renders the documented
  string with three consecutive spaces, from every initial heap.
\<close>

theorem combine_renders:
  "(selector1 < length h \<and> selector2 < length h \<longrightarrow>
      (\<exists>h'. cssSelectorBuilder_combine selector1 combinator selector2 h = (Inr (length h), h')
         \<and> length h < length h'
         \<and> invoke_stringify (length h) h' =
             (Inr (stringify (h ! selector1) @ '' '' @ combinator @ '' ''
                   @ stringify (h ! selector2)), h')))
   \<and> fst (doc_example h0) =
       Inr ''div#main.container.draggable + table#data ~ tr:nth-of-type(even)   td:nth-of-type(even)''"
proof -
  have "fst (doc_example h0) =
       Inr ''div#main.container.draggable + table#data ~ tr:nth-of-type(even)   td:nth-of-type(even)''"
    by (simp add: doc_example_def and_then_def cssSelectorBuilder_element_def
      cssSelectorBuilder_combine_def new_MySuperBaseElementSelector_def invoke_def
      invoke_combine_def invoke_stringify_def element_def id_m_def class_m_def pseudoClass_def
      order_guard_def constructor_def combine_def stringify_def Let_def nth_append)
  moreover have "\<exists>h'. cssSelectorBuilder_combine selector1 combinator selector2 h
           = (Inr (length h), h')
         \<and> length h < length h'
         \<and> invoke_stringify (length h) h' =
             (Inr (stringify (h ! selector1) @ '' '' @ combinator @ '' ''
                   @ stringify (h ! selector2)), h')"
    if "selector1 < length h" and "selector2 < length h"
    using that
    by (simp add: combine_factory_operands invoke_stringify_def combine_def stringify_def
      constructor_def)
  ultimately show ?thesis by blast
qed

theorem combine_renders_witness:
  "(0::nat) < length [run [Append Element ''tr''] constructor, run [Append Element ''td''] constructor]
   \<and> (1::nat) < length [run [Append Element ''tr''] constructor, run [Append Element ''td''] constructor]
   \<and> (\<exists>h'. cssSelectorBuilder_combine 0 '' '' 1
               [run [Append Element ''tr''] constructor, run [Append Element ''td''] constructor]
              = (Inr 2, h')
         \<and> invoke_stringify 2 h' = (Inr ''tr   td'', h'))"
proof -
  let ?h = "[run [Append Element ''tr''] constructor, run [Append Element ''td''] constructor]"
  have b: "(0::nat) < length ?h \<and> (1::nat) < length ?h" by simp
  from combine_renders [of 0 ?h 1 "'' ''", THEN conjunct1, rule_format, OF b]
  obtain h' where "cssSelectorBuilder_combine 0 '' '' 1 ?h = (Inr (length ?h), h')"
    and "invoke_stringify (length ?h) h' =
           (Inr (stringify (?h ! 0) @ '' '' @ '' '' @ '' '' @ stringify (?h ! 1)), h')"
    by blast
  moreover have "stringify (?h ! 0) = ''tr''" and "stringify (?h ! 1) = ''td''"
    by (simp_all add: eval_defs)
  moreover have "length ?h = 2" by simp
  ultimately have "cssSelectorBuilder_combine 0 '' '' 1 ?h = (Inr 2, h')
         \<and> invoke_stringify 2 h' = (Inr ''tr   td'', h')" by (simp add: numeral_2_eq_2)
  with b show ?thesis by blast
qed

text \<open>
  Claim C5. Errors are raised by the append call itself: on a builder reached by any
  sequence of calls, an append call returns normally exactly when the categories
  appended so far, followed by the new one, still respect the ascending order and
  the singleton limits. A call that raises raises one of the two errors and leaves
  the builder exactly as it was before the call (fragments, the three flags and
  \<open>prevTag\<close>), so \<open>stringify\<close> returns the same string as before.
\<close>

theorem failed_append_leaves_state:
  "((\<exists>this'. append_call tg v (run cs constructor) = Inr this')
      \<longleftrightarrow> spec_valid_sequence (history cs constructor @ [tg]))
   \<and> (\<forall>e this'. append_call tg v (run cs constructor) = Inl (e, this') \<longrightarrow>
         this' = run cs constructor
         \<and> stringify this' = stringify (run cs constructor)
         \<and> (e = OrderViolation \<or> e = DuplicateSingleton))"
proof -
  let ?b = "run cs constructor" and ?hs = "history cs constructor"
  have c: "consistent ?b ?hs" by (rule consistent_reachable)
  then have v: "spec_valid_sequence ?hs" by (simp add: consistent_def)
  have "(\<exists>this'. append_call tg v ?b = Inr this') = (\<not> order_guard tg ?b \<and> \<not> seen tg ?b)"
  proof (cases "order_guard tg ?b")
    case True
    then show ?thesis by (simp add: append_call_order)
  next
    case False
    show ?thesis
    proof (cases "seen tg ?b")
      case True
      with False show ?thesis by (simp add: append_call_duplicate)
    next
      case no: False
      from append_call_returns [OF False no, of v] False no show ?thesis by auto
    qed
  qed
  also have "\<dots> = spec_valid_sequence (?hs @ [tg])"
  proof
    assume a: "\<not> order_guard tg ?b \<and> \<not> seen tg ?b"
    then have "?hs \<noteq> [] \<longrightarrow> orderTagList (last ?hs) \<le> orderTagList tg"
      unfolding guard_consistent [OF c] by auto
    moreover from a have "singleton_tag tg \<longrightarrow> tg \<notin> set ?hs"
      unfolding seen_consistent [OF c] by auto
    ultimately show "spec_valid_sequence (?hs @ [tg])" by (rule valid_snoc [OF v])
  next
    assume "spec_valid_sequence (?hs @ [tg])"
    then have "(?hs \<noteq> [] \<longrightarrow> orderTagList (last ?hs) \<le> orderTagList tg)
       \<and> (singleton_tag tg \<longrightarrow> tg \<notin> set ?hs)"
      by (simp add: valid_snocD)
    then show "\<not> order_guard tg ?b \<and> \<not> seen tg ?b"
      unfolding guard_consistent [OF c] seen_consistent [OF c] by auto
  qed
  finally have r: "(\<exists>this'. append_call tg v ?b = Inr this') = spec_valid_sequence (?hs @ [tg])" .
  have i: "this' = ?b \<and> stringify this' = stringify ?b
       \<and> (e = OrderViolation \<or> e = DuplicateSingleton)"
    if "append_call tg v ?b = Inl (e, this')" for e this'
  proof -
    from failed_append_unchanged [OF c that]
    have "this' = ?b" and "e = OrderViolation \<or> e = DuplicateSingleton" by blast+
    then show ?thesis by blast
  qed
  show ?thesis
  proof (intro conjI allI impI)
    show "(\<exists>this'. append_call tg v ?b = Inr this') = spec_valid_sequence (?hs @ [tg])"
      by (rule r)
  qed (rule i [THEN conjunct1], assumption,
       rule i [THEN conjunct2, THEN conjunct1], assumption,
       rule i [THEN conjunct2, THEN conjunct2], assumption)
qed

theorem failed_append_leaves_state_witness:
  "append_call Element ''div'' (run [Append Id ''main''] constructor)
     = Inl (OrderViolation, run [Append Id ''main''] constructor)
   \<and> stringify (run [Append Id ''main''] constructor) = ''#main''"
proof -
  let ?x = "\<lparr>selectorsArr = [''#main''], output_field = [],
      uniqElObj = \<lparr>uniq_element = False, uniq_id = True, uniq_pseudoElement = False\<rparr>,
      prevTag = Some Id\<rparr>"
  have h: "append_call Element ''div'' (run [Append Id ''main''] constructor)
     = Inl (OrderViolation, ?x)"
    by (simp add: eval_defs)
  from failed_append_leaves_state [of Element "''div''" "[Append Id ''main'']", THEN conjunct2, rule_format, OF h]
  have k: "?x = run [Append Id ''main''] constructor"
    and s: "stringify ?x = stringify (run [Append Id ''main''] constructor)"
    by blast+
  have "stringify ?x = ''#main''" by (simp add: stringify_def)
  with s have "stringify (run [Append Id ''main''] constructor) = ''#main''" by simp
  moreover from h k
  have "append_call Element ''div'' (run [Append Id ''main''] constructor)
     = Inl (OrderViolation, run [Append Id ''main''] constructor)" by simp
  ultimately show ?thesis by blast
qed

text \<open>
  Claim C6. \<open>stringify\<close> leaves the heap, hence every builder, unchanged, and a
  second call right after the first returns the same string.
\<close>

theorem stringify_pure_idempotent:
  "snd (invoke_stringify r h) = h
   \<and> fst (invoke_stringify r (snd (invoke_stringify r h))) = fst (invoke_stringify r h)"
  by (simp add: invoke_stringify_def)

text \<open>
  Claim C7. A top-level factory call, on every heap, allocates a new object at a
  reference not in use before, leaves every existing object as it was, never raises,
  and the new builder is the constructed one after the single append call, holding
  exactly one fragment. Two \<open>cssSelectorBuilder.element\<close> calls in a row both
  return normally, and an append call on one builder changes neither another
  builder nor what \<open>stringify\<close> returns for it.
\<close>

theorem factory_fresh_independent:
  "(\<exists>this. factory_call tg v h = (Inr (length h), h @ [this])
       \<and> append_call tg v constructor = Inr this
       \<and> selectorsArr this = [spec_fragment tg v])
   \<and> (\<exists>h2. and_then (cssSelectorBuilder_element v1 h) (\<lambda>r1. cssSelectorBuilder_element v2)
              = (Inr (Suc (length h)), h2))
   \<and> (r' \<noteq> r \<longrightarrow>
        snd (invoke (append_call tg' v') r h) ! r' = h ! r'
        \<and> fst (invoke_stringify r' (snd (invoke (append_call tg' v') r h)))
            = fst (invoke_stringify r' h))"
proof -
  have "\<exists>this. factory_call tg v h = (Inr (length h), h @ [this])
       \<and> append_call tg v constructor = Inr this
       \<and> selectorsArr this = [spec_fragment tg v]"
    by (simp add: factory_call_eq invoke_def append_call_constructor)
  moreover
  have "\<exists>h2. and_then (cssSelectorBuilder_element v1 h) (\<lambda>r1. cssSelectorBuilder_element v2)
              = (Inr (Suc (length h)), h2)"
    using factory_call_eq [of Element]
    by (simp add: and_then_def invoke_def append_call_constructor
        del: append_call.simps flip: append_call.simps(1))
  moreover
  have "snd (invoke (append_call tg' v') r h) ! r' = h ! r'" if "r' \<noteq> r"
    using that by (simp add: invoke_def split: sum.split prod.split)
  ultimately show ?thesis by (simp add: invoke_stringify_def)
qed

theorem factory_fresh_independent_witness:
  "(1::nat) \<noteq> 0
   \<and> snd (invoke (append_call Class ''x'') 0
            [run [Append Element ''a''] constructor, run [Append Element ''b''] constructor]) ! 1
       = run [Append Element ''b''] constructor
   \<and> fst (invoke_stringify 1 (snd (invoke (append_call Class ''x'') 0
            [run [Append Element ''a''] constructor, run [Append Element ''b''] constructor])))
       = Inr ''b''"
proof -
  let ?h = "[run [Append Element ''a''] constructor, run [Append Element ''b''] constructor]"
  have n: "(1::nat) \<noteq> 0" by simp
  have "fst (invoke_stringify 1 ?h) = Inr ''b''"
    by (simp add: invoke_stringify_def eval_defs)
  with n factory_fresh_independent [of _ _ ?h _ _ 1 0 Class "''x''", THEN conjunct2, THEN conjunct2, rule_format, OF n]
  show ?thesis by simp
qed

text \<open>
  Claim C8. \<open>sellTickets\<close> does not compute the change-making simulation its
  documentation describes: it compares each bill after the first with the sum of all
  bills received before. For the queue \<open>[25, 50]\<close> the seller can give the change of
  25, but \<open>sellTickets\<close> returns \<open>false\<close>; for \<open>[50]\<close> the seller, who starts
  without money, cannot give change, but \<open>sellTickets\<close> returns \<open>true\<close>.
\<close>

theorem sellTickets_diverges: "sellTickets [25, 50] = False \<and> spec_sellTickets [25, 50] = True
    \<and> sellTickets [50] = True \<and> spec_sellTickets [50] = False"
  by (simp add: sellTickets_def spec_sellTickets_def spec_serve_def)

text \<open>
  Claim C9 says that \<open>combine(selector1, token, selector2)\<close> mutates neither
  operand. The method \<open>combine\<close> pushes the combined string onto its receiver, so
  it does mutate an operand that is also the receiver: with \<open>a\<close> rendering \<open>a\<close> and
  \<open>b\<close> rendering \<open>b\<close>, after \<open>a.combine(a, '+', b)\<close> the operand \<open>a\<close> is another
  object and renders \<open>aa + b\<close>.
\<close>

theorem combine_frames_operands_counterexample:
  "fst (invoke_stringify 0
          [run [Append Element ''a''] constructor, run [Append Element ''b''] constructor])
     = Inr ''a''
   \<and> fst (invoke_stringify 0 (snd (invoke_combine 0 0 ''+'' 1
          [run [Append Element ''a''] constructor, run [Append Element ''b''] constructor])))
     = Inr ''aa + b''
   \<and> snd (invoke_combine 0 0 ''+'' 1
          [run [Append Element ''a''] constructor, run [Append Element ''b''] constructor]) ! 0
     \<noteq> [run [Append Element ''a''] constructor, run [Append Element ''b''] constructor] ! 0"
  by (simp add: invoke_stringify_def invoke_combine_def eval_defs)

text \<open>
  Claim C9, amended. \<open>combine\<close> mutates neither operand when its receiver is an
  object other than both operands: the operands are the same objects after the call
  and their \<open>stringify\<close> is unchanged. That is always so for
  \<open>cssSelectorBuilder.combine\<close>, which calls the method on a newly constructed
  builder: it only extends the heap by that builder, every existing object is as it
  was, and an operand can be combined again. The method changes its receiver only,
  by pushing the one combined fragment onto it.
\<close>

theorem combine_frames_operands:
  assumes "selector1 < length h" and "selector2 < length h"
  shows "take (length h) (snd (cssSelectorBuilder_combine selector1 combinator selector2 h)) = h
    \<and> snd (cssSelectorBuilder_combine selector1 combinator selector2 h) ! selector1
        = h ! selector1
    \<and> snd (cssSelectorBuilder_combine selector1 combinator selector2 h) ! selector2
        = h ! selector2
    \<and> fst (invoke_stringify selector1
              (snd (cssSelectorBuilder_combine selector1 combinator selector2 h)))
        = fst (invoke_stringify selector1 h)
    \<and> fst (invoke_stringify selector2
              (snd (cssSelectorBuilder_combine selector1 combinator selector2 h)))
        = fst (invoke_stringify selector2 h)
    \<and> fst (and_then (cssSelectorBuilder_combine selector1 combinator selector2 h)
              (\<lambda>r h1. and_then (cssSelectorBuilder_combine selector1 combinator' r h1)
                 invoke_stringify))
        = Inr (stringify (h ! selector1) @ '' '' @ combinator' @ '' ''
               @ stringify (h ! selector1) @ '' '' @ combinator @ '' ''
               @ stringify (h ! selector2))
    \<and> (r \<noteq> selector1 \<and> r \<noteq> selector2 \<longrightarrow>
         snd (invoke_combine r selector1 combinator selector2 h) ! selector1 = h ! selector1
         \<and> snd (invoke_combine r selector1 combinator selector2 h) ! selector2 = h ! selector2
         \<and> fst (invoke_stringify selector1
                   (snd (invoke_combine r selector1 combinator selector2 h)))
             = fst (invoke_stringify selector1 h)
         \<and> fst (invoke_stringify selector2
                   (snd (invoke_combine r selector1 combinator selector2 h)))
             = fst (invoke_stringify selector2 h))
    \<and> (r' \<noteq> r \<longrightarrow> snd (invoke_combine r selector1 combinator selector2 h) ! r' = h ! r')
    \<and> (r < length h \<longrightarrow>
         snd (invoke_combine r selector1 combinator selector2 h) ! r
           = (h ! r)\<lparr>selectorsArr := selectorsArr (h ! r)
                @ [stringify (h ! selector1) @ '' '' @ combinator @ '' ''
                   @ stringify (h ! selector2)]\<rparr>)"
proof -
  let ?c = "combine (h ! selector1) combinator (h ! selector2) constructor"
  have e: "cssSelectorBuilder_combine selector1 combinator selector2 h = (Inr (length h), h @ [?c])"
    using assms by (rule combine_factory_operands)
  have e2: "cssSelectorBuilder_combine selector1 combinator' (length h) (h @ [?c])
      = (Inr (Suc (length h)),
         (h @ [?c]) @ [combine (h ! selector1) combinator' ?c constructor])"
    using assms combine_factory_operands [of selector1 "h @ [?c]" "length h" combinator']
    by (simp add: nth_append)
  have "fst (and_then (cssSelectorBuilder_combine selector1 combinator selector2 h)
              (\<lambda>r h1. and_then (cssSelectorBuilder_combine selector1 combinator' r h1)
                 invoke_stringify))
        = Inr (stringify (h ! selector1) @ '' '' @ combinator' @ '' ''
               @ stringify (h ! selector1) @ '' '' @ combinator @ '' ''
               @ stringify (h ! selector2))"
    unfolding e and_then_def
    by (simp add: e2 invoke_stringify_def combined_fresh nth_append)
  moreover from assms have "take (length h) (h @ [?c]) = h
    \<and> (h @ [?c]) ! selector1 = h ! selector1 \<and> (h @ [?c]) ! selector2 = h ! selector2"
    by (simp add: nth_append)
  moreover have "snd (invoke_combine r selector1 combinator selector2 h) ! r
           = (h ! r)\<lparr>selectorsArr := selectorsArr (h ! r)
                @ [stringify (h ! selector1) @ '' '' @ combinator @ '' ''
                   @ stringify (h ! selector2)]\<rparr>" if "r < length h"
    using that by (simp add: invoke_combine_def combine_def)
  ultimately show ?thesis
    unfolding e by (simp add: invoke_stringify_def invoke_combine_def)
qed

theorem combine_frames_operands_witness:
  "(0::nat) < length [run [Append Element ''tr''] constructor,
                      run [Append Element ''td''] constructor, run [Append Id ''x''] constructor]
   \<and> (1::nat) < length [run [Append Element ''tr''] constructor,
                      run [Append Element ''td''] constructor, run [Append Id ''x''] constructor]
   \<and> (2::nat) \<noteq> 0 \<and> (2::nat) \<noteq> 1
   \<and> (2::nat) < length [run [Append Element ''tr''] constructor,
                      run [Append Element ''td''] constructor, run [Append Id ''x''] constructor]
   \<and> snd (invoke_combine 2 0 ''+'' 1
        [run [Append Element ''tr''] constructor,
         run [Append Element ''td''] constructor, run [Append Id ''x''] constructor]) ! 0
      = run [Append Element ''tr''] constructor
   \<and> fst (invoke_stringify 2 (snd (invoke_combine 2 0 ''+'' 1
        [run [Append Element ''tr''] constructor,
         run [Append Element ''td''] constructor, run [Append Id ''x''] constructor])))
      = Inr ''#xtr + td''
   \<and> snd (cssSelectorBuilder_combine 0 ''+'' 1
        [run [Append Element ''tr''] constructor,
         run [Append Element ''td''] constructor, run [Append Id ''x''] constructor]) ! 0
      = run [Append Element ''tr''] constructor
   \<and> fst (and_then (cssSelectorBuilder_combine 0 ''+'' 1
              [run [Append Element ''tr''] constructor,
               run [Append Element ''td''] constructor, run [Append Id ''x''] constructor])
              (\<lambda>r h1. and_then (cssSelectorBuilder_combine 0 ''~'' r h1) invoke_stringify))
      = Inr ''tr ~ tr + td''"
proof -
  let ?h = "[run [Append Element ''tr''] constructor,
             run [Append Element ''td''] constructor, run [Append Id ''x''] constructor]"
  have b0: "(0::nat) < length ?h" and b1: "(1::nat) < length ?h" and b2: "(2::nat) < length ?h"
    by simp_all
  have n: "(2::nat) \<noteq> 0 \<and> (2::nat) \<noteq> 1" by simp
  have s: "stringify (?h ! 0) = ''tr''" "stringify (?h ! 1) = ''td''"
    by (simp_all add: eval_defs)
  have s0: "?h ! 0 = run [Append Element ''tr''] constructor" by simp
  have x: "stringify ((?h ! 2)\<lparr>selectorsArr := selectorsArr (?h ! 2) @ [''tr + td'']\<rparr>)
      = ''#xtr + td''"
    by (simp add: eval_defs)
  note t = combine_frames_operands [OF b0 b1, of "''+''" "''~''" 2]
  from t have f: "snd (cssSelectorBuilder_combine 0 ''+'' 1 ?h) ! 0 = ?h ! 0"
    by (rule conjunct2 [THEN conjunct1])
  from t have g: "fst (and_then (cssSelectorBuilder_combine 0 ''+'' 1 ?h)
              (\<lambda>r h1. and_then (cssSelectorBuilder_combine 0 ''~'' r h1) invoke_stringify))
        = Inr (stringify (?h ! 0) @ '' '' @ ''~'' @ '' ''
               @ stringify (?h ! 0) @ '' '' @ ''+'' @ '' '' @ stringify (?h ! 1))"
    by blast
  from t n have m0: "snd (invoke_combine 2 0 ''+'' 1 ?h) ! 0 = ?h ! 0"
    by blast
  from t b2 have k: "snd (invoke_combine 2 0 ''+'' 1 ?h) ! 2
           = (?h ! 2)\<lparr>selectorsArr := selectorsArr (?h ! 2)
                @ [stringify (?h ! 0) @ '' '' @ ''+'' @ '' '' @ stringify (?h ! 1)]\<rparr>"
    by blast
  have k2: "fst (invoke_stringify 2 (snd (invoke_combine 2 0 ''+'' 1 ?h))) = Inr ''#xtr + td''"
    unfolding invoke_stringify_def k s using x by simp
  from f have f': "snd (cssSelectorBuilder_combine 0 ''+'' 1 ?h) ! 0
      = run [Append Element ''tr''] constructor" unfolding s0 .
  from m0 have m0': "snd (invoke_combine 2 0 ''+'' 1 ?h) ! 0
      = run [Append Element ''tr''] constructor" unfolding s0 .
  from g have g': "fst (and_then (cssSelectorBuilder_combine 0 ''+'' 1 ?h)
              (\<lambda>r h1. and_then (cssSelectorBuilder_combine 0 ''~'' r h1) invoke_stringify))
        = Inr ''tr ~ tr + td''" unfolding s by simp
  from b0 b1 b2 n m0' k2 f' g' show ?thesis by blast
qed

text \<open>
  Claim C10. The builder \<open>cssSelectorBuilder.combine\<close> returns has \<open>prevTag\<close>
  unset and the three flags false. The append call made next on it returns normally
  whatever its category, and \<open>stringify\<close> is then the combined string followed by
  the new fragment; more generally every chain of append calls that respects the
  order and the singleton limits returns normally on it and appends its fragments
  to the combined string.
\<close>

theorem combined_builder_accepts_append:
  assumes "selector1 < length h" and "selector2 < length h"
  shows "\<exists>r h'. cssSelectorBuilder_combine selector1 combinator selector2 h = (Inr r, h')
    \<and> prevTag (h' ! r) = None
    \<and> uniqElObj (h' ! r) = \<lparr>uniq_element = False, uniq_id = False, uniq_pseudoElement = False\<rparr>
    \<and> stringify (h' ! r)
        = stringify (h ! selector1) @ '' '' @ combinator @ '' '' @ stringify (h ! selector2)
    \<and> (\<exists>this'. append_call tg v (h' ! r) = Inr this'
          \<and> stringify this' = stringify (h' ! r) @ spec_fragment tg v)
    \<and> fst (and_then (invoke (append_call tg v) r h') invoke_stringify)
        = Inr (stringify (h' ! r) @ spec_fragment tg v)
    \<and> (spec_valid_sequence (map fst ops) \<longrightarrow>
         (\<exists>this'. chain ops (h' ! r) = Inr this'
            \<and> stringify this'
                = stringify (h' ! r) @ concat (map (\<lambda>(tg, v). spec_fragment tg v) ops)))"
proof -
  let ?c = "combine (h ! selector1) combinator (h ! selector2) constructor"
  let ?h' = "h @ [?c]"
  have e: "cssSelectorBuilder_combine selector1 combinator selector2 h = (Inr (length h), ?h')"
    using assms by (rule combine_factory_operands)
  have n: "?h' ! length h = ?c" by simp
  have g: "\<not> order_guard tg ?c" by (simp add: order_guard_def combined_fresh)
  have s: "\<not> seen tg ?c" by (cases tg) (simp_all add: combined_fresh)
  from append_call_returns [OF g s, of v] obtain this1 where
    r: "append_call tg v ?c = Inr this1"
    and a: "selectorsArr this1 = selectorsArr ?c @ [spec_fragment tg v]"
    by blast
  from a have st: "stringify this1 = stringify ?c @ spec_fragment tg v"
    by (simp add: stringify_def)
  have one: "\<exists>this'. append_call tg v ?c = Inr this'
          \<and> stringify this' = stringify ?c @ spec_fragment tg v"
    using r st by blast
  have two: "fst (and_then (invoke (append_call tg v) (length h) ?h') invoke_stringify)
        = Inr (stringify ?c @ spec_fragment tg v)"
    by (simp add: and_then_def invoke_def r invoke_stringify_def st)
  have three: "\<exists>this'. chain ops ?c = Inr this'
            \<and> stringify this' = stringify ?c @ concat (map (\<lambda>(tg, v). spec_fragment tg v) ops)"
    if "spec_valid_sequence (map fst ops)"
  proof -
    from that have "spec_valid_sequence ([] @ map fst ops)" by simp
    from chain_valid [OF combined_consistent this] obtain this' where
      "chain ops ?c = Inr this'"
      "selectorsArr this' = selectorsArr ?c @ map (\<lambda>(tg, v). spec_fragment tg v) ops"
      by blast
    then show ?thesis by (simp add: stringify_def)
  qed
  show ?thesis
    unfolding e
    apply (intro exI [of _ "length h"] exI [of _ ?h'])
    unfolding n
    using one two three by (simp add: combined_fresh)
qed

theorem combined_builder_accepts_append_witness:
  "(0::nat) < length [run [Append Element ''tr''] constructor, run [Append Element ''td''] constructor]
   \<and> (1::nat) < length [run [Append Element ''tr''] constructor, run [Append Element ''td''] constructor]
   \<and> (\<exists>r h'. cssSelectorBuilder_combine 0 ''+'' 1
          [run [Append Element ''tr''] constructor, run [Append Element ''td''] constructor]
          = (Inr r, h')
        \<and> fst (and_then (invoke (append_call Element ''x'') r h') invoke_stringify)
            = Inr ''tr + tdx'')"
proof -
  let ?h = "[run [Append Element ''tr''] constructor, run [Append Element ''td''] constructor]"
  have b0: "(0::nat) < length ?h" and b1: "(1::nat) < length ?h" by simp_all
  have s0: "stringify (?h ! 0) = ''tr''" and s1: "stringify (?h ! 1) = ''td''"
    by (simp_all add: eval_defs)
  from combined_builder_accepts_append [OF b0 b1, of "''+''" Element "''x''" "[]"]
  obtain r h' where "cssSelectorBuilder_combine 0 ''+'' 1 ?h = (Inr r, h')"
    and "stringify (h' ! r) = stringify (?h ! 0) @ '' '' @ ''+'' @ '' '' @ stringify (?h ! 1)"
    and "fst (and_then (invoke (append_call Element ''x'') r h') invoke_stringify)
        = Inr (stringify (h' ! r) @ spec_fragment Element ''x'')"
    by blast
  with s0 s1 have "cssSelectorBuilder_combine 0 ''+'' 1 ?h = (Inr r, h')
        \<and> fst (and_then (invoke (append_call Element ''x'') r h') invoke_stringify)
            = Inr ''tr + tdx''" by simp
  with b0 b1 show ?thesis by blast
qed

end
